theory Spec2Isabelle
  imports Main "HOL-Library.Word"
begin

section \<open>mm/mmu\_context.c: a kernel thread borrowing an address space\<close>

text \<open>
  The file holds two functions, \<open>use_mm\<close> and \<open>unuse_mm\<close>. Both act on
  \<open>current\<close>, the calling kernel thread, and on the \<open>mm_struct\<close> objects that the
  thread's two pointers \<open>mm\<close> and \<open>active_mm\<close> refer to. Everything else they do is a
  call into another part of the kernel. The model keeps the two structures as records,
  a pointer as an optional address (\<open>None\<close> is \<open>NULL\<close>), and records every call together
  with the machine state in which it was made, so that the order of calls and the state
  seen by each of them can be stated.
\<close>

subsection \<open>Data\<close>

type_synonym mm_ptr = "nat option"

record task_struct =
  mm :: mm_ptr
  active_mm :: mm_ptr
  alloc_lock :: bool

record mm_struct =
  mm_count :: "32 word"

text \<open>The calls made by the two functions, in the spelling of the source.\<close>

datatype call =
    TaskLock
  | TaskUnlock
  | Mmgrab mm_ptr
  | Mmdrop mm_ptr
  | MmFree nat
  | MembarrierUpdateCurrentMm mm_ptr
  | SwitchMm mm_ptr mm_ptr
  | FinishArchPostLockSwitch
  | SmpMb
  | SmpMbAfterSpinlock
  | SyncMmRss mm_ptr
  | EnterLazyTlb mm_ptr

text \<open>
  The machine: the calling thread and the address-space objects, by address. The state of
  a run adds the calls made so far, oldest first, each with the machine as the call found it.
\<close>

record machine =
  current :: task_struct
  mm_heap :: "nat \<Rightarrow> mm_struct"

record kstate = machine +
  trace :: "(call \<times> machine) list"

datatype fault = NullPointer | Deadlock

subsection \<open>Sequencing of statements that may fault\<close>

definition and_then :: "fault + kstate \<Rightarrow> (kstate \<Rightarrow> fault + kstate) \<Rightarrow> fault + kstate" where
  "and_then r f = (case r of Inl e \<Rightarrow> Inl e | Inr w \<Rightarrow> f w)"

definition observe :: "call \<Rightarrow> kstate \<Rightarrow> kstate" where
  "observe c w = w\<lparr>trace := trace w @ [(c, machine.truncate w)]\<rparr>"

subsection \<open>Stores to the fields\<close>

definition store_mm :: "mm_ptr \<Rightarrow> kstate \<Rightarrow> kstate" where
  "store_mm p w = w\<lparr>current := (current w)\<lparr>mm := p\<rparr>\<rparr>"

definition store_active_mm :: "mm_ptr \<Rightarrow> kstate \<Rightarrow> kstate" where
  "store_active_mm p w = w\<lparr>current := (current w)\<lparr>active_mm := p\<rparr>\<rparr>"

definition store_alloc_lock :: "bool \<Rightarrow> kstate \<Rightarrow> kstate" where
  "store_alloc_lock b w = w\<lparr>current := (current w)\<lparr>alloc_lock := b\<rparr>\<rparr>"

definition store_mm_count :: "nat \<Rightarrow> 32 word \<Rightarrow> kstate \<Rightarrow> kstate" where
  "store_mm_count a c w = w\<lparr>mm_heap := (mm_heap w)(a := (mm_heap w a)\<lparr>mm_count := c\<rparr>)\<rparr>"

subsection \<open>The collaborators of the two functions\<close>

text \<open>
  Modelled from the spec: \<open>task_lock\<close> and \<open>task_unlock\<close> are not in the file. The spec
  calls them acquiring and releasing the context's mutual-exclusion lock. The lock is a
  spinlock that is not recursive: taking it while it is held never returns, which is
  the fault \<open>Deadlock\<close> here.
\<close>

definition task_lock :: "kstate \<Rightarrow> fault + kstate" where
  "task_lock w =
     (if alloc_lock (current w) then Inl Deadlock
      else Inr (store_alloc_lock True (observe TaskLock w)))"

definition task_unlock :: "kstate \<Rightarrow> kstate" where
  "task_unlock w = store_alloc_lock False (observe TaskUnlock w)"

text \<open>
  Modelled from the spec: \<open>mmgrab\<close> and \<open>mmdrop\<close> are not in the file. The spec's
  reference-counting primitive: acquire increments the count; release decrements it and,
  on reaching zero, destroys the object. The count is an atomic unsigned integer, here a
  32-bit word, so both wrap. Either one reads the object through its pointer, so a
  \<open>NULL\<close> pointer is the fault \<open>NullPointer\<close>. Destruction itself is outside the file and
  is only recorded, as the call \<open>MmFree\<close>.
\<close>

definition mmgrab :: "mm_ptr \<Rightarrow> kstate \<Rightarrow> fault + kstate" where
  "mmgrab p w =
     (case p of
        None \<Rightarrow> Inl NullPointer
      | Some a \<Rightarrow> Inr (store_mm_count a (mm_count (mm_heap w a) + 1) (observe (Mmgrab p) w)))"

definition mmdrop :: "mm_ptr \<Rightarrow> kstate \<Rightarrow> fault + kstate" where
  "mmdrop p w =
     (case p of
        None \<Rightarrow> Inl NullPointer
      | Some a \<Rightarrow>
          (let c = mm_count (mm_heap w a) - 1;
               w' = store_mm_count a c (observe (Mmdrop p) w)
           in Inr (if c = 0 then observe (MmFree a) w' else w')))"

text \<open>
  Modelled from the spec: the remaining collaborators are not in the file and their
  effects are outside it (the spec's external interfaces: the switch of the active space,
  the platform hook after the switch, the membarrier notification, the flush of the
  pending statistics, entering the lazy state, and the two full memory barriers). Each is
  the record of its call and nothing else.
\<close>

definition membarrier_update_current_mm :: "mm_ptr \<Rightarrow> kstate \<Rightarrow> kstate" where
  "membarrier_update_current_mm p w = observe (MembarrierUpdateCurrentMm p) w"

definition switch_mm :: "mm_ptr \<Rightarrow> mm_ptr \<Rightarrow> kstate \<Rightarrow> kstate" where
  "switch_mm prev next w = observe (SwitchMm prev next) w"

definition finish_arch_post_lock_switch :: "kstate \<Rightarrow> kstate" where
  "finish_arch_post_lock_switch w = observe FinishArchPostLockSwitch w"

definition smp_mb :: "kstate \<Rightarrow> kstate" where
  "smp_mb w = observe SmpMb w"

definition smp_mb__after_spinlock :: "kstate \<Rightarrow> kstate" where
  "smp_mb__after_spinlock w = observe SmpMbAfterSpinlock w"

definition sync_mm_rss :: "mm_ptr \<Rightarrow> kstate \<Rightarrow> kstate" where
  "sync_mm_rss p w = observe (SyncMmRss p) w"

definition enter_lazy_tlb :: "mm_ptr \<Rightarrow> kstate \<Rightarrow> kstate" where
  "enter_lazy_tlb p w = observe (EnterLazyTlb p) w"

subsection \<open>use\_mm and unuse\_mm\<close>

text \<open>
  \<open>use_mm\<close>, statement by statement. The first argument says whether the platform
  defines \<open>finish_arch_post_lock_switch\<close> (the \<open>#ifdef\<close> of the source); \<open>m\<close> is the
  source's parameter \<open>mm\<close> and \<open>prev\<close> its local variable \<open>active_mm\<close>.
\<close>

definition use_mm :: "bool \<Rightarrow> mm_ptr \<Rightarrow> kstate \<Rightarrow> fault + kstate" where
  "use_mm arch_hook m w0 =
     and_then (task_lock w0) (\<lambda>w1.
       let prev = active_mm (current w1) in
       and_then
         (if prev \<noteq> m
          then and_then (mmgrab m w1) (\<lambda>w. Inr (store_active_mm m w))
          else Inr w1) (\<lambda>w2.
       let w3 = store_mm m w2;
           w4 = membarrier_update_current_mm m w3;
           w5 = switch_mm prev m w4;
           w6 = task_unlock w5;
           w7 = (if arch_hook then finish_arch_post_lock_switch w6 else w6)
       in if prev \<noteq> m then mmdrop prev w7 else Inr (smp_mb w7)))"

text \<open>\<open>unuse_mm\<close>; \<open>m\<close> is the source's parameter \<open>mm\<close>.\<close>

definition unuse_mm :: "mm_ptr \<Rightarrow> kstate \<Rightarrow> fault + kstate" where
  "unuse_mm m w0 =
     and_then (task_lock w0) (\<lambda>w1.
       let w2 = smp_mb__after_spinlock w1;
           w3 = sync_mm_rss m w2;
           w4 = store_mm None w3;
           w5 = membarrier_update_current_mm None w4;
           w6 = enter_lazy_tlb m w5
       in Inr (task_unlock w6))"

subsection \<open>Sequences of calls by one thread\<close>

datatype op = Attach mm_ptr | Detach mm_ptr

fun step :: "bool \<Rightarrow> op \<Rightarrow> kstate \<Rightarrow> fault + kstate" where
  "step arch_hook (Attach m) w = use_mm arch_hook m w"
| "step arch_hook (Detach m) w = unuse_mm m w"

fun run :: "bool \<Rightarrow> op list \<Rightarrow> kstate \<Rightarrow> fault + kstate" where
  "run arch_hook [] w = Inr w"
| "run arch_hook (x # xs) w = and_then (step arch_hook x w) (run arch_hook xs)"

subsection \<open>What the claims speak about\<close>

text \<open>The calls a run added to the trace between two of its states.\<close>

definition new_calls :: "kstate \<Rightarrow> kstate \<Rightarrow> (call \<times> machine) list" where
  "new_calls w w' = drop (length (trace w)) (trace w')"

text \<open>
  References attributable to the thread. \<open>ref_delta a c\<close> is the effect of the call
  \<open>c\<close> on the number of references the thread holds on the object at \<open>a\<close>, and
  \<open>net_refs a tr\<close> the net number the calls of a trace take on it. A thread whose
  \<open>active_mm\<close> refers to an object holds the reference that comes with the pointer
  (\<open>retained_ref\<close>); \<open>use_mm\<close> of another object is what drops it. So the references
  attributable to the thread after a trace that began with \<open>active_mm = r0\<close> are that
  one and the net number the trace took (\<open>ctx_refs\<close>).
\<close>

definition ref_delta :: "nat \<Rightarrow> call \<Rightarrow> int" where
  "ref_delta a c = (if c = Mmgrab (Some a) then 1 else if c = Mmdrop (Some a) then - 1 else 0)"

definition net_refs :: "nat \<Rightarrow> (call \<times> machine) list \<Rightarrow> int" where
  "net_refs a tr = sum_list (map (\<lambda>e. ref_delta a (fst e)) tr)"

definition retained_ref :: "'a machine_scheme \<Rightarrow> nat \<Rightarrow> int" where
  "retained_ref w a = (if active_mm (current w) = Some a then 1 else 0)"

definition ctx_refs :: "mm_ptr \<Rightarrow> (call \<times> machine) list \<Rightarrow> nat \<Rightarrow> int" where
  "ctx_refs r0 tr a = (if r0 = Some a then 1 else 0) + net_refs a tr"

text \<open>The calls that change a reference count.\<close>

fun is_ref_op :: "call \<Rightarrow> bool" where
  "is_ref_op (Mmgrab p) = True"
| "is_ref_op (Mmdrop p) = True"
| "is_ref_op c = False"

text \<open>
  The calls that are a full memory barrier: the two explicit barriers, and \<open>mmdrop\<close>,
  whose decrement implies one (the comment in \<open>use_mm\<close>).
\<close>

fun full_barrier :: "call \<Rightarrow> bool" where
  "full_barrier SmpMb = True"
| "full_barrier SmpMbAfterSpinlock = True"
| "full_barrier (Mmdrop p) = True"
| "full_barrier c = False"

text \<open>The calls of the translation switch.\<close>

fun is_switch :: "call \<Rightarrow> bool" where
  "is_switch (SwitchMm p n) = True"
| "is_switch c = False"

text \<open>
  The calls whose place relative to the lock matters: taking and releasing it, the
  switch, the membarrier notification, the statistics flush and the platform hook.
\<close>

fun lock_scoped :: "call \<Rightarrow> bool" where
  "lock_scoped TaskLock = True"
| "lock_scoped TaskUnlock = True"
| "lock_scoped (SwitchMm p n) = True"
| "lock_scoped (MembarrierUpdateCurrentMm p) = True"
| "lock_scoped (SyncMmRss p) = True"
| "lock_scoped FinishArchPostLockSwitch = True"
| "lock_scoped c = False"

text \<open>A running sum that starts at \<open>c\<close> and is never negative.\<close>

fun never_below :: "int \<Rightarrow> int list \<Rightarrow> bool" where
  "never_below c [] = (0 \<le> c)"
| "never_below c (d # ds) = (0 \<le> c \<and> never_below (c + d) ds)"

text \<open>
  States to run the functions on: a kernel thread that is lazily on the object at 10 and
  attached to nothing, and one that has no \<open>active_mm\<close> either; every object has two
  references. Then the states the first reaches by \<open>use_mm\<close> of the object at 11, by
  \<open>unuse_mm\<close> after that, and by \<open>use_mm\<close> of the object at 12 after that, on a
  platform with the hook.
\<close>

definition kthread0 :: kstate where
  "kthread0 =
     \<lparr>current = \<lparr>mm = None, active_mm = Some 10, alloc_lock = False\<rparr>,
      mm_heap = (\<lambda>a. \<lparr>mm_count = 2\<rparr>),
      trace = []\<rparr>"

definition orphan0 :: kstate where
  "orphan0 =
     \<lparr>current = \<lparr>mm = None, active_mm = None, alloc_lock = False\<rparr>,
      mm_heap = (\<lambda>a. \<lparr>mm_count = 2\<rparr>),
      trace = []\<rparr>"

definition attached_a :: kstate where
  "attached_a = projr (use_mm True (Some 11) kthread0)"

definition lazy_a :: kstate where
  "lazy_a = projr (unuse_mm (Some 11) attached_a)"

definition moved_b :: kstate where
  "moved_b = projr (use_mm True (Some 12) lazy_a)"

section \<open>Symbolic execution\<close>

subsection \<open>Fields after each statement\<close>

lemma observe_sel:
  "current (observe c w) = current w"
  "mm_heap (observe c w) = mm_heap w"
  "trace (observe c w) = trace w @ [(c, \<lparr>current = current w, mm_heap = mm_heap w\<rparr>)]"
  by (simp_all add: observe_def machine.truncate_def)

lemma store_mm_sel:
  "current (store_mm p w) = (current w)\<lparr>mm := p\<rparr>"
  "mm_heap (store_mm p w) = mm_heap w"
  "trace (store_mm p w) = trace w"
  by (simp_all add: store_mm_def)

lemma store_active_mm_sel:
  "current (store_active_mm p w) = (current w)\<lparr>active_mm := p\<rparr>"
  "mm_heap (store_active_mm p w) = mm_heap w"
  "trace (store_active_mm p w) = trace w"
  by (simp_all add: store_active_mm_def)

lemma store_alloc_lock_sel:
  "current (store_alloc_lock b w) = (current w)\<lparr>alloc_lock := b\<rparr>"
  "mm_heap (store_alloc_lock b w) = mm_heap w"
  "trace (store_alloc_lock b w) = trace w"
  by (simp_all add: store_alloc_lock_def)

lemma store_mm_count_sel:
  "current (store_mm_count a c w) = current w"
  "mm_heap (store_mm_count a c w) = (mm_heap w)(a := (mm_heap w a)\<lparr>mm_count := c\<rparr>)"
  "trace (store_mm_count a c w) = trace w"
  by (simp_all add: store_mm_count_def)

lemmas sel =
  observe_sel store_mm_sel store_active_mm_sel store_alloc_lock_sel store_mm_count_sel

lemmas collaborators =
  task_lock_def task_unlock_def mmgrab_def mmdrop_def membarrier_update_current_mm_def
  switch_mm_def finish_arch_post_lock_switch_def smp_mb_def smp_mb__after_spinlock_def
  sync_mm_rss_def enter_lazy_tlb_def and_then_def

lemma kstate_eqI:
  fixes v w :: kstate
  assumes "current v = current w" and "mm_heap v = mm_heap w" and "trace v = trace w"
  shows "v = w"
  using assms by simp

subsection \<open>The two functions in closed form\<close>

text \<open>With the lock already held neither function returns.\<close>

lemma use_mm_locked:
  "alloc_lock (current w) \<Longrightarrow> use_mm h m w = Inl Deadlock"
  by (simp add: use_mm_def task_lock_def and_then_def)

lemma unuse_mm_locked:
  "alloc_lock (current w) \<Longrightarrow> unuse_mm m w = Inl Deadlock"
  by (simp add: unuse_mm_def task_lock_def and_then_def)

text \<open>\<open>use_mm\<close> on the object the thread is already on, lazily or not.\<close>

lemma use_mm_same:
  assumes "\<not> alloc_lock (current w)" and "active_mm (current w) = m"
  shows "use_mm h m w = Inr
     \<lparr>current = \<lparr>mm = m, active_mm = m, alloc_lock = False\<rparr>,
      mm_heap = mm_heap w,
      trace = trace w @
        [(TaskLock, \<lparr>current = current w, mm_heap = mm_heap w\<rparr>),
         (MembarrierUpdateCurrentMm m,
            \<lparr>current = \<lparr>mm = m, active_mm = m, alloc_lock = True\<rparr>, mm_heap = mm_heap w\<rparr>),
         (SwitchMm m m,
            \<lparr>current = \<lparr>mm = m, active_mm = m, alloc_lock = True\<rparr>, mm_heap = mm_heap w\<rparr>),
         (TaskUnlock,
            \<lparr>current = \<lparr>mm = m, active_mm = m, alloc_lock = True\<rparr>, mm_heap = mm_heap w\<rparr>)] @
        (if h then [(FinishArchPostLockSwitch,
            \<lparr>current = \<lparr>mm = m, active_mm = m, alloc_lock = False\<rparr>, mm_heap = mm_heap w\<rparr>)]
         else []) @
        [(SmpMb,
            \<lparr>current = \<lparr>mm = m, active_mm = m, alloc_lock = False\<rparr>, mm_heap = mm_heap w\<rparr>)]\<rparr>"
  using assms
  apply (simp add: use_mm_def collaborators Let_def)
  apply (intro conjI impI kstate_eqI)
  apply (simp_all add: sel)
  done

text \<open>\<open>use_mm\<close> on another object than the one the thread is on.\<close>

lemma use_mm_other:
  assumes "\<not> alloc_lock (current w)" and "active_mm (current w) = Some p" and "p \<noteq> a"
  shows "use_mm h (Some a) w = Inr
     \<lparr>current = \<lparr>mm = Some a, active_mm = Some a, alloc_lock = False\<rparr>,
      mm_heap = (mm_heap w)
        (a := (mm_heap w a)\<lparr>mm_count := mm_count (mm_heap w a) + 1\<rparr>,
         p := (mm_heap w p)\<lparr>mm_count := mm_count (mm_heap w p) - 1\<rparr>),
      trace = trace w @
        [(TaskLock, \<lparr>current = current w, mm_heap = mm_heap w\<rparr>),
         (Mmgrab (Some a),
            \<lparr>current = (current w)\<lparr>alloc_lock := True\<rparr>, mm_heap = mm_heap w\<rparr>),
         (MembarrierUpdateCurrentMm (Some a),
            \<lparr>current = \<lparr>mm = Some a, active_mm = Some a, alloc_lock = True\<rparr>,
             mm_heap = (mm_heap w)(a := (mm_heap w a)\<lparr>mm_count := mm_count (mm_heap w a) + 1\<rparr>)\<rparr>),
         (SwitchMm (Some p) (Some a),
            \<lparr>current = \<lparr>mm = Some a, active_mm = Some a, alloc_lock = True\<rparr>,
             mm_heap = (mm_heap w)(a := (mm_heap w a)\<lparr>mm_count := mm_count (mm_heap w a) + 1\<rparr>)\<rparr>),
         (TaskUnlock,
            \<lparr>current = \<lparr>mm = Some a, active_mm = Some a, alloc_lock = True\<rparr>,
             mm_heap = (mm_heap w)(a := (mm_heap w a)\<lparr>mm_count := mm_count (mm_heap w a) + 1\<rparr>)\<rparr>)] @
        (if h then [(FinishArchPostLockSwitch,
            \<lparr>current = \<lparr>mm = Some a, active_mm = Some a, alloc_lock = False\<rparr>,
             mm_heap = (mm_heap w)(a := (mm_heap w a)\<lparr>mm_count := mm_count (mm_heap w a) + 1\<rparr>)\<rparr>)]
         else []) @
        [(Mmdrop (Some p),
            \<lparr>current = \<lparr>mm = Some a, active_mm = Some a, alloc_lock = False\<rparr>,
             mm_heap = (mm_heap w)(a := (mm_heap w a)\<lparr>mm_count := mm_count (mm_heap w a) + 1\<rparr>)\<rparr>)] @
        (if mm_count (mm_heap w p) - 1 = 0 then [(MmFree p,
            \<lparr>current = \<lparr>mm = Some a, active_mm = Some a, alloc_lock = False\<rparr>,
             mm_heap = (mm_heap w)
               (a := (mm_heap w a)\<lparr>mm_count := mm_count (mm_heap w a) + 1\<rparr>,
                p := (mm_heap w p)\<lparr>mm_count := mm_count (mm_heap w p) - 1\<rparr>)\<rparr>)]
         else [])\<rparr>"
  using assms by (simp add: use_mm_def collaborators Let_def sel)

text \<open>The two ways \<open>use_mm\<close> reads through a \<open>NULL\<close> pointer.\<close>

lemma use_mm_null_arg:
  assumes "\<not> alloc_lock (current w)" and "active_mm (current w) \<noteq> None"
  shows "use_mm h None w = Inl NullPointer"
  using assms by (simp add: use_mm_def collaborators Let_def sel)

lemma use_mm_null_prev:
  assumes "\<not> alloc_lock (current w)" and "active_mm (current w) = None"
  shows "use_mm h (Some a) w = Inl NullPointer"
  using assms by (simp add: use_mm_def collaborators Let_def sel)

text \<open>\<open>unuse_mm\<close> with the lock free.\<close>

lemma unuse_mm_free:
  assumes "\<not> alloc_lock (current w)"
  shows "unuse_mm m w = Inr
     \<lparr>current = (current w)\<lparr>mm := None\<rparr>,
      mm_heap = mm_heap w,
      trace = trace w @
        [(TaskLock, \<lparr>current = current w, mm_heap = mm_heap w\<rparr>),
         (SmpMbAfterSpinlock,
            \<lparr>current = (current w)\<lparr>alloc_lock := True\<rparr>, mm_heap = mm_heap w\<rparr>),
         (SyncMmRss m,
            \<lparr>current = (current w)\<lparr>alloc_lock := True\<rparr>, mm_heap = mm_heap w\<rparr>),
         (MembarrierUpdateCurrentMm None,
            \<lparr>current = (current w)\<lparr>mm := None, alloc_lock := True\<rparr>, mm_heap = mm_heap w\<rparr>),
         (EnterLazyTlb m,
            \<lparr>current = (current w)\<lparr>mm := None, alloc_lock := True\<rparr>, mm_heap = mm_heap w\<rparr>),
         (TaskUnlock,
            \<lparr>current = (current w)\<lparr>mm := None, alloc_lock := True\<rparr>, mm_heap = mm_heap w\<rparr>)]\<rparr>"
  using assms
  apply (simp add: unuse_mm_def collaborators Let_def)
  apply (intro conjI impI kstate_eqI)
  apply (simp_all add: sel)
  done

subsection \<open>When the functions return\<close>

lemma use_mm_cases:
  assumes "use_mm h m w = Inr w'"
  obtains (same) "\<not> alloc_lock (current w)" and "active_mm (current w) = m"
        | (other) p a where "\<not> alloc_lock (current w)" and "m = Some a"
            and "active_mm (current w) = Some p" and "p \<noteq> a"
proof (cases "alloc_lock (current w)")
  case True
  with assms show ?thesis by (simp add: use_mm_locked)
next
  case free: False
  show ?thesis
  proof (cases "active_mm (current w) = m")
    case True
    with free show ?thesis by (rule same)
  next
    case differ: False
    show ?thesis
    proof (cases m)
      case None
      with assms free differ show ?thesis by (simp add: use_mm_null_arg)
    next
      case (Some a)
      show ?thesis
      proof (cases "active_mm (current w)")
        case None
        with assms free Some show ?thesis by (simp add: use_mm_null_prev)
      next
        case (Some p)
        with free differ \<open>m = Some a\<close> show ?thesis by (intro other[of a p]) auto
      qed
    qed
  qed
qed

lemma use_mm_current:
  assumes "use_mm h m w = Inr w'"
  shows "current w' = \<lparr>mm = m, active_mm = m, alloc_lock = False\<rparr>"
  using assms
proof (cases rule: use_mm_cases)
  case same
  with assms show ?thesis by (auto simp: use_mm_same)
next
  case (other p a)
  with assms show ?thesis by (auto simp: use_mm_other)
qed

lemma unuse_mm_lock_free:
  assumes "unuse_mm m w = Inr w'"
  shows "\<not> alloc_lock (current w)"
  using assms by (cases "alloc_lock (current w)") (simp_all add: unuse_mm_locked)

lemma unuse_mm_current:
  assumes "unuse_mm m w = Inr w'"
  shows "current w' = (current w)\<lparr>mm := None\<rparr>" and "mm_heap w' = mm_heap w"
  using assms unuse_mm_lock_free[OF assms] by (auto simp: unuse_mm_free)

subsection \<open>The example states\<close>

lemma kthread0_sel:
  "current kthread0 = \<lparr>mm = None, active_mm = Some 10, alloc_lock = False\<rparr>"
  "mm_heap kthread0 = (\<lambda>a. \<lparr>mm_count = 2\<rparr>)"
  "trace kthread0 = []"
  by (simp_all add: kthread0_def)

lemma orphan0_sel:
  "current orphan0 = \<lparr>mm = None, active_mm = None, alloc_lock = False\<rparr>"
  "mm_heap orphan0 = (\<lambda>a. \<lparr>mm_count = 2\<rparr>)"
  "trace orphan0 = []"
  by (simp_all add: orphan0_def)

lemma attached_a_run: "use_mm True (Some 11) kthread0 = Inr attached_a"
  by (simp add: attached_a_def use_mm_other kthread0_sel)

lemma attached_a_sel:
  "current attached_a = \<lparr>mm = Some 11, active_mm = Some 11, alloc_lock = False\<rparr>"
  "mm_heap attached_a = (\<lambda>a. \<lparr>mm_count = 2\<rparr>)(11 := \<lparr>mm_count = 3\<rparr>, 10 := \<lparr>mm_count = 1\<rparr>)"
  "map fst (trace attached_a) =
     [TaskLock, Mmgrab (Some 11), MembarrierUpdateCurrentMm (Some 11), SwitchMm (Some 10) (Some 11),
      TaskUnlock, FinishArchPostLockSwitch, Mmdrop (Some 10)]"
  by (simp_all add: attached_a_def use_mm_other kthread0_sel)

lemma lazy_a_run: "unuse_mm (Some 11) attached_a = Inr lazy_a"
  by (simp add: lazy_a_def unuse_mm_free attached_a_sel)

lemma lazy_a_sel:
  "current lazy_a = \<lparr>mm = None, active_mm = Some 11, alloc_lock = False\<rparr>"
  "mm_heap lazy_a = (\<lambda>a. \<lparr>mm_count = 2\<rparr>)(11 := \<lparr>mm_count = 3\<rparr>, 10 := \<lparr>mm_count = 1\<rparr>)"
  by (simp_all add: lazy_a_def unuse_mm_free attached_a_sel)

lemma moved_b_run: "use_mm True (Some 12) lazy_a = Inr moved_b"
  by (simp add: moved_b_def use_mm_other lazy_a_sel)

lemma moved_b_sel:
  "current moved_b = \<lparr>mm = Some 12, active_mm = Some 12, alloc_lock = False\<rparr>"
  "mm_count (mm_heap moved_b 10) = 1"
  "mm_count (mm_heap moved_b 11) = 2"
  "mm_count (mm_heap moved_b 12) = 3"
  by (simp_all add: moved_b_def use_mm_other lazy_a_sel)

lemma run_to_moved_b:
  "run True [Attach (Some 11), Detach (Some 11), Attach (Some 12)] kthread0 = Inr moved_b"
  by (simp add: attached_a_run lazy_a_run moved_b_run and_then_def)

subsection \<open>Counting references along a trace\<close>

lemma never_below_start: "never_below c ds \<Longrightarrow> 0 \<le> c"
  by (cases ds) simp_all

lemma never_below_append:
  "never_below c (xs @ ys) = (never_below c xs \<and> never_below (c + sum_list xs) ys)"
  by (induction xs arbitrary: c) (auto simp: add.assoc dest: never_below_start)

lemma never_below_take:
  "never_below c ds \<Longrightarrow> 0 \<le> c + sum_list (take k ds)"
proof (induction ds arbitrary: c k)
  case Nil
  then show ?case by simp
next
  case (Cons d ds)
  show ?case
  proof (cases k)
    case 0
    with Cons.prems show ?thesis by simp
  next
    case (Suc j)
    from Cons.prems have "never_below (c + d) ds" by simp
    then have "0 \<le> (c + d) + sum_list (take j ds)" by (rule Cons.IH)
    with Suc show ?thesis by (simp add: add.assoc)
  qed
qed

lemma net_refs_append: "net_refs a (xs @ ys) = net_refs a xs + net_refs a ys"
  by (simp add: net_refs_def)

text \<open>
  One call of either function: what it adds to the trace takes, in sum, the difference
  of the references that come with \<open>active_mm\<close> after and before; the running count
  never goes below zero on the way; and the count in the object moves by the same sum.
\<close>

lemma step_refs:
  assumes "step h x w = Inr w'"
  shows "\<exists>new. trace w' = trace w @ new
    \<and> net_refs a new = retained_ref w' a - retained_ref w a
    \<and> never_below (retained_ref w a) (map (\<lambda>e. ref_delta a (fst e)) new)
    \<and> mm_count (mm_heap w' a) = mm_count (mm_heap w a) + of_int (net_refs a new)"
proof (cases x)
  case (Attach m)
  with assms have attach: "use_mm h m w = Inr w'" by simp
  then show ?thesis
  proof (cases rule: use_mm_cases)
    case same
    with attach show ?thesis
      by (auto simp: use_mm_same net_refs_def ref_delta_def retained_ref_def)
  next
    case (other p b)
    with attach show ?thesis
      by (auto simp: use_mm_other net_refs_def ref_delta_def retained_ref_def)
  qed
next
  case (Detach m)
  with assms have detach: "unuse_mm m w = Inr w'" by simp
  from unuse_mm_free[OF unuse_mm_lock_free[OF this], of m] detach show ?thesis
    by (auto simp: net_refs_def ref_delta_def retained_ref_def)
qed

lemma run_refs:
  assumes "run h ops w = Inr w'"
  shows "\<exists>new. trace w' = trace w @ new
    \<and> net_refs a new = retained_ref w' a - retained_ref w a
    \<and> never_below (retained_ref w a) (map (\<lambda>e. ref_delta a (fst e)) new)
    \<and> mm_count (mm_heap w' a) = mm_count (mm_heap w a) + of_int (net_refs a new)"
  using assms
proof (induction ops arbitrary: w)
  case Nil
  then show ?case by (simp add: net_refs_def retained_ref_def)
next
  case (Cons x xs)
  from Cons.prems obtain w1 where first: "step h x w = Inr w1" and rest: "run h xs w1 = Inr w'"
    by (auto simp: and_then_def split: sum.splits)
  from step_refs[OF first, of a] obtain n1 where
    n1: "trace w1 = trace w @ n1" "net_refs a n1 = retained_ref w1 a - retained_ref w a"
      "never_below (retained_ref w a) (map (\<lambda>e. ref_delta a (fst e)) n1)"
      "mm_count (mm_heap w1 a) = mm_count (mm_heap w a) + of_int (net_refs a n1)"
    by blast
  from Cons.IH[OF rest] obtain n2 where
    n2: "trace w' = trace w1 @ n2" "net_refs a n2 = retained_ref w' a - retained_ref w1 a"
      "never_below (retained_ref w1 a) (map (\<lambda>e. ref_delta a (fst e)) n2)"
      "mm_count (mm_heap w' a) = mm_count (mm_heap w1 a) + of_int (net_refs a n2)"
    by blast
  have sum1: "sum_list (map (\<lambda>e. ref_delta a (fst e)) n1) = retained_ref w1 a - retained_ref w a"
    using n1(2) by (simp add: net_refs_def)
  have "trace w' = trace w @ (n1 @ n2)"
    using n1(1) n2(1) by simp
  moreover have "net_refs a (n1 @ n2) = retained_ref w' a - retained_ref w a"
    using n1(2) n2(2) by (simp add: net_refs_append)
  moreover have "never_below (retained_ref w a) (map (\<lambda>e. ref_delta a (fst e)) (n1 @ n2))"
    using n1(3) n2(3) sum1 by (simp add: never_below_append)
  moreover have "mm_count (mm_heap w' a) = mm_count (mm_heap w a) + of_int (net_refs a (n1 @ n2))"
    using n1(4) n2(4) by (simp add: net_refs_append)
  ultimately show ?case by blast
qed

section \<open>The reference count of one thread\<close>

text \<open>
  Claim C1. For every sequence of \<open>use_mm\<close> and \<open>unuse_mm\<close> calls by one thread, the
  number of references on an object attributable to the thread is exactly 1 when its
  \<open>active_mm\<close> (the spec's retained field) refers to that object and 0 otherwise, in
  particular when \<open>active_mm\<close> is \<open>NULL\<close>; and it is never negative, after any number
  of the calls the sequence makes. The sequence is one that returns, observed from its
  start (an empty trace). The last part ties the count to the object: its \<open>mm_count\<close>
  has moved by exactly the net number of references the trace took.
\<close>

theorem context_reference_count_invariant:
  assumes fresh: "trace w = []"
    and returns: "run h ops w = Inr w'"
  shows "ctx_refs (active_mm (current w)) (trace w') a =
           (if active_mm (current w') = Some a then 1 else 0)
    \<and> (\<forall>k. 0 \<le> ctx_refs (active_mm (current w)) (take k (trace w')) a)
    \<and> mm_count (mm_heap w' a) = mm_count (mm_heap w a) + of_int (net_refs a (trace w'))"
proof -
  from run_refs[OF returns, of a] fresh obtain new where
    new: "trace w' = new" "net_refs a new = retained_ref w' a - retained_ref w a"
      "never_below (retained_ref w a) (map (\<lambda>e. ref_delta a (fst e)) new)"
      "mm_count (mm_heap w' a) = mm_count (mm_heap w a) + of_int (net_refs a new)"
    by auto
  have "0 \<le> ctx_refs (active_mm (current w)) (take k (trace w')) a" for k
    using never_below_take[OF new(3), of k]
    by (simp add: ctx_refs_def net_refs_def retained_ref_def new(1) take_map)
  then show ?thesis
    using new by (simp add: ctx_refs_def retained_ref_def)
qed

text \<open>
  The sequence \<open>use_mm(11)\<close>, \<open>unuse_mm(11)\<close>, \<open>use_mm(12)\<close> from a thread lazily on the
  object at 10: afterwards the thread holds one reference on the object at 12 and none
  on the objects at 10 and 11. And a thread with no \<open>active_mm\<close> still has none after
  an \<open>unuse_mm\<close>, and holds no reference.
\<close>

theorem context_reference_count_invariant_witness:
  "trace kthread0 = []
   \<and> run True [Attach (Some 11), Detach (Some 11), Attach (Some 12)] kthread0 = Inr moved_b
   \<and> ctx_refs (Some 10) (trace moved_b) 12 = 1
   \<and> ctx_refs (Some 10) (trace moved_b) 11 = 0
   \<and> ctx_refs (Some 10) (trace moved_b) 10 = 0
   \<and> (\<forall>k. 0 \<le> ctx_refs (Some 10) (take k (trace moved_b)) 10)
   \<and> mm_count (mm_heap moved_b 10) =
       mm_count (mm_heap kthread0 10) + of_int (net_refs 10 (trace moved_b))
   \<and> trace orphan0 = []
   \<and> \<not> isl (run True [Detach None] orphan0)
   \<and> active_mm (current (projr (run True [Detach None] orphan0))) = None
   \<and> ctx_refs None (trace (projr (run True [Detach None] orphan0))) 10 = 0"
proof -
  note inv = context_reference_count_invariant[OF kthread0_sel(3) run_to_moved_b]
  have on_b: "ctx_refs (Some 10) (trace moved_b) 12 = 1"
    using inv[of 12] by (simp add: kthread0_sel moved_b_sel)
  have on_a: "ctx_refs (Some 10) (trace moved_b) 11 = 0"
    using inv[of 11] by (simp add: kthread0_sel moved_b_sel)
  have on_first: "ctx_refs (Some 10) (trace moved_b) 10 = 0"
    "\<forall>k. 0 \<le> ctx_refs (Some 10) (take k (trace moved_b)) 10"
    "mm_count (mm_heap moved_b 10) =
       mm_count (mm_heap kthread0 10) + of_int (net_refs 10 (trace moved_b))"
    using inv[of 10] by (simp_all add: kthread0_sel(1) moved_b_sel(1))
  let ?w = "projr (run True [Detach None] orphan0)"
  have detached: "run True [Detach None] orphan0 = Inr ?w" and still_none: "active_mm (current ?w) = None"
    by (simp_all add: unuse_mm_free orphan0_sel and_then_def)
  then have returns: "\<not> isl (run True [Detach None] orphan0)"
    by (metis sum.disc(2))
  have on_none: "ctx_refs None (trace ?w) 10 = 0"
    using context_reference_count_invariant[OF orphan0_sel(3) detached, of 10] still_none
    by (simp add: orphan0_sel(1))
  show ?thesis
    using kthread0_sel(3) run_to_moved_b on_b on_a on_first orphan0_sel(3) returns still_none on_none
    by (intro conjI)
qed

section \<open>Attaching again\<close>

text \<open>
  Claim C2. In the sequence \<open>use_mm(A)\<close>, \<open>unuse_mm(A)\<close>, \<open>use_mm(A)\<close> by one thread,
  the second \<open>use_mm\<close> returns, does not increment the reference count of \<open>A\<close> (it
  makes no \<open>mmgrab\<close> call and leaves every count as it was), and every call it makes,
  the translation switch among them, sees the counts unchanged; the switch is called
  with \<open>A\<close> as both the previous and the next object.
\<close>

theorem reattach_same_space_reuses_reference:
  assumes first: "use_mm h (Some a) w0 = Inr w1"
    and detach: "unuse_mm (Some a) w1 = Inr w2"
  shows "\<exists>w3. use_mm h (Some a) w2 = Inr w3
    \<and> mm_count (mm_heap w3 a) = mm_count (mm_heap w2 a)
    \<and> mm_heap w3 = mm_heap w2
    \<and> map fst (new_calls w2 w3) =
        [TaskLock, MembarrierUpdateCurrentMm (Some a), SwitchMm (Some a) (Some a), TaskUnlock] @
        (if h then [FinishArchPostLockSwitch] else []) @ [SmpMb]
    \<and> list_all (\<lambda>e. mm_heap (snd e) = mm_heap w2) (new_calls w2 w3)"
proof -
  have "current w1 = \<lparr>mm = Some a, active_mm = Some a, alloc_lock = False\<rparr>"
    using first by (rule use_mm_current)
  with detach have "current w2 = \<lparr>mm = None, active_mm = Some a, alloc_lock = False\<rparr>"
    by (simp add: unuse_mm_current)
  then have "\<not> alloc_lock (current w2)" and "active_mm (current w2) = Some a"
    by simp_all
  from use_mm_same[OF this] show ?thesis
    by (simp add: new_calls_def)
qed

theorem reattach_same_space_reuses_reference_witness:
  "use_mm True (Some 11) kthread0 = Inr attached_a
   \<and> unuse_mm (Some 11) attached_a = Inr lazy_a
   \<and> (\<exists>w3. use_mm True (Some 11) lazy_a = Inr w3
        \<and> mm_count (mm_heap w3 11) = 3
        \<and> map fst (new_calls lazy_a w3) =
            [TaskLock, MembarrierUpdateCurrentMm (Some 11), SwitchMm (Some 11) (Some 11),
             TaskUnlock, FinishArchPostLockSwitch, SmpMb])"
proof -
  from reattach_same_space_reuses_reference[OF attached_a_run lazy_a_run]
  obtain w3 where "use_mm True (Some 11) lazy_a = Inr w3"
    and "mm_count (mm_heap w3 11) = mm_count (mm_heap lazy_a 11)"
    and "map fst (new_calls lazy_a w3) =
            [TaskLock, MembarrierUpdateCurrentMm (Some 11), SwitchMm (Some 11) (Some 11),
             TaskUnlock, FinishArchPostLockSwitch, SmpMb]"
    by auto
  then show ?thesis
    using attached_a_run lazy_a_run by (auto simp: lazy_a_sel)
qed

text \<open>
  Claim C8. Two consecutive \<open>use_mm\<close> calls with the same object and no \<open>unuse_mm\<close>
  between them: the second returns, leaves every reference count and the thread's
  fields unchanged, makes no \<open>mmgrab\<close> or \<open>mmdrop\<close> call, and calls the translation
  switch once, with the same object as previous and next.
\<close>

theorem attach_twice_changes_nothing:
  assumes first: "use_mm h m w0 = Inr w1"
  shows "\<exists>w2. use_mm h m w1 = Inr w2
    \<and> mm_heap w2 = mm_heap w1
    \<and> current w2 = current w1
    \<and> map fst (new_calls w1 w2) =
        [TaskLock, MembarrierUpdateCurrentMm m, SwitchMm m m, TaskUnlock] @
        (if h then [FinishArchPostLockSwitch] else []) @ [SmpMb]"
proof -
  have cur: "current w1 = \<lparr>mm = m, active_mm = m, alloc_lock = False\<rparr>"
    using first by (rule use_mm_current)
  then have "\<not> alloc_lock (current w1)" and "active_mm (current w1) = m"
    by simp_all
  from use_mm_same[OF this] cur show ?thesis
    by (simp add: new_calls_def)
qed

theorem attach_twice_changes_nothing_witness:
  "use_mm True (Some 11) kthread0 = Inr attached_a
   \<and> (\<exists>w2. use_mm True (Some 11) attached_a = Inr w2
        \<and> mm_heap w2 = mm_heap attached_a
        \<and> current w2 = current attached_a
        \<and> map fst (new_calls attached_a w2) =
            [TaskLock, MembarrierUpdateCurrentMm (Some 11), SwitchMm (Some 11) (Some 11),
             TaskUnlock, FinishArchPostLockSwitch, SmpMb])"
  using attach_twice_changes_nothing[OF attached_a_run] attached_a_run by simp

text \<open>
  Claim C7. In the sequence \<open>use_mm(A)\<close>, \<open>unuse_mm(A)\<close>, \<open>use_mm(B)\<close> by one thread,
  with \<open>B\<close> another object than \<open>A\<close>, the last call returns, and over the whole
  sequence exactly one reference on \<open>A\<close> is released and exactly one reference on \<open>B\<close>
  is acquired: among the calls of the three together there is one \<open>mmdrop\<close> of \<open>A\<close>
  and one \<open>mmgrab\<close> of \<open>B\<close>. The calls that change a count are listed for the whole
  sequence: those of the first \<open>use_mm\<close> (none when the thread was already on \<open>A\<close>,
  else the \<open>mmgrab\<close> of \<open>A\<close> and the \<open>mmdrop\<close> of the object it was on), none
  from \<open>unuse_mm\<close>, and from the last call the \<open>mmgrab\<close> of \<open>B\<close> followed by the
  \<open>mmdrop\<close> of \<open>A\<close>. \<open>unuse_mm\<close> leaves every count as it was, and across the last
  call the count of \<open>B\<close> goes up by one, the count of \<open>A\<close> down by one, and no other
  object is touched.
\<close>

theorem attach_other_space_moves_one_reference:
  assumes first: "use_mm h (Some a) w0 = Inr w1"
    and detach: "unuse_mm (Some a) w1 = Inr w2"
    and differ: "b \<noteq> a"
  shows "\<exists>w3. use_mm h (Some b) w2 = Inr w3
    \<and> filter is_ref_op (map fst (new_calls w2 w3)) = [Mmgrab (Some b), Mmdrop (Some a)]
    \<and> mm_count (mm_heap w3 a) = mm_count (mm_heap w2 a) - 1
    \<and> mm_count (mm_heap w3 b) = mm_count (mm_heap w2 b) + 1
    \<and> (\<forall>x. x \<noteq> a \<and> x \<noteq> b \<longrightarrow> mm_heap w3 x = mm_heap w2 x)
    \<and> filter is_ref_op (map fst (new_calls w1 w2)) = []
    \<and> mm_heap w2 = mm_heap w1
    \<and> filter is_ref_op (map fst (new_calls w0 w3)) =
        (if active_mm (current w0) = Some a then []
         else [Mmgrab (Some a), Mmdrop (active_mm (current w0))]) @
        [Mmgrab (Some b), Mmdrop (Some a)]
    \<and> length (filter (\<lambda>c. c = Mmdrop (Some a)) (map fst (new_calls w0 w3))) = 1
    \<and> length (filter (\<lambda>c. c = Mmgrab (Some b)) (map fst (new_calls w0 w3))) = 1
    \<and> mm_count (mm_heap w3 a) = mm_count (mm_heap w1 a) - 1
    \<and> mm_count (mm_heap w3 b) = mm_count (mm_heap w1 b) + 1"
proof -
  have cur1: "current w1 = \<lparr>mm = Some a, active_mm = Some a, alloc_lock = False\<rparr>"
    using first by (rule use_mm_current)
  then have free1: "\<not> alloc_lock (current w1)"
    by simp
  have second: "unuse_mm (Some a) w1 = Inr w2"
    by (rule detach)
  have cur2: "current w2 = \<lparr>mm = None, active_mm = Some a, alloc_lock = False\<rparr>"
    and heap2: "mm_heap w2 = mm_heap w1"
    using unuse_mm_current[OF second] cur1 by simp_all
  have calls2: "map fst (new_calls w1 w2) =
      [TaskLock, SmpMbAfterSpinlock, SyncMmRss (Some a), MembarrierUpdateCurrentMm None,
       EnterLazyTlb (Some a), TaskUnlock]"
    and trace2: "trace w2 = trace w1 @ new_calls w1 w2"
  proof -
    have "w2 = projr (unuse_mm (Some a) w1)"
      using second by simp
    then show "map fst (new_calls w1 w2) =
      [TaskLock, SmpMbAfterSpinlock, SyncMmRss (Some a), MembarrierUpdateCurrentMm None,
       EnterLazyTlb (Some a), TaskUnlock]"
      and "trace w2 = trace w1 @ new_calls w1 w2"
      by (simp_all add: unuse_mm_free[OF free1] new_calls_def)
  qed
  from cur2 have free2: "\<not> alloc_lock (current w2)" and lazy: "active_mm (current w2) = Some a"
    by simp_all
  from differ have apart: "a \<noteq> b" by simp
  note closed3 = use_mm_other[OF free2 lazy apart, of h]
  define w3 where "w3 = projr (use_mm h (Some b) w2)"
  have third: "use_mm h (Some b) w2 = Inr w3"
    by (simp add: w3_def closed3)
  have calls3: "filter is_ref_op (map fst (new_calls w2 w3)) = [Mmgrab (Some b), Mmdrop (Some a)]"
    by (simp add: w3_def closed3 new_calls_def)
  have count_a: "mm_count (mm_heap w3 a) = mm_count (mm_heap w2 a) - 1"
    using differ by (simp add: w3_def closed3)
  have count_b: "mm_count (mm_heap w3 b) = mm_count (mm_heap w2 b) + 1"
    using differ by (simp add: w3_def closed3)
  have others: "\<forall>x. x \<noteq> a \<and> x \<noteq> b \<longrightarrow> mm_heap w3 x = mm_heap w2 x"
    by (simp add: w3_def closed3)
  have trace3: "trace w3 = trace w2 @ new_calls w2 w3"
    by (simp add: w3_def closed3 new_calls_def)
  have "filter is_ref_op (map fst (new_calls w0 w1)) =
      (if active_mm (current w0) = Some a then []
       else [Mmgrab (Some a), Mmdrop (active_mm (current w0))])
    \<and> trace w1 = trace w0 @ new_calls w0 w1"
    using first
  proof (cases rule: use_mm_cases)
    case same
    with first have "w1 = projr (use_mm h (Some a) w0)"
      by simp
    with same show ?thesis
      by (simp add: use_mm_same new_calls_def)
  next
    case (other p c)
    with first have "w1 = projr (use_mm h (Some a) w0)" and "c = a"
      by simp_all
    with other show ?thesis
      by (simp add: use_mm_other new_calls_def)
  qed
  then have calls1: "filter is_ref_op (map fst (new_calls w0 w1)) =
      (if active_mm (current w0) = Some a then []
       else [Mmgrab (Some a), Mmdrop (active_mm (current w0))])"
    and trace1: "trace w1 = trace w0 @ new_calls w0 w1"
    by blast+
  have whole: "new_calls w0 w3 = new_calls w0 w1 @ new_calls w1 w2 @ new_calls w2 w3"
  proof -
    have "trace w3 = trace w0 @ (new_calls w0 w1 @ new_calls w1 w2 @ new_calls w2 w3)"
      using trace1 trace2 trace3 by simp
    then show ?thesis
      by (simp add: new_calls_def[of w0 w3])
  qed
  have ref_ops: "filter is_ref_op (map fst (new_calls w0 w3)) =
      (if active_mm (current w0) = Some a then []
       else [Mmgrab (Some a), Mmdrop (active_mm (current w0))]) @
      [Mmgrab (Some b), Mmdrop (Some a)]"
    using calls1 calls2 calls3 by (simp add: whole)
  have narrow: "filter P xs = filter P (filter is_ref_op xs)"
    if "\<And>c. P c \<Longrightarrow> is_ref_op c" for P and xs :: "call list"
    using that by (induction xs) auto
  have "filter (\<lambda>c. c = Mmdrop (Some a)) (map fst (new_calls w0 w3)) =
      filter (\<lambda>c. c = Mmdrop (Some a)) (filter is_ref_op (map fst (new_calls w0 w3)))"
    by (rule narrow) simp
  then have drops_a: "length (filter (\<lambda>c. c = Mmdrop (Some a)) (map fst (new_calls w0 w3))) = 1"
    using differ by (simp add: ref_ops)
  have "filter (\<lambda>c. c = Mmgrab (Some b)) (map fst (new_calls w0 w3)) =
      filter (\<lambda>c. c = Mmgrab (Some b)) (filter is_ref_op (map fst (new_calls w0 w3)))"
    by (rule narrow) simp
  then have grabs_b: "length (filter (\<lambda>c. c = Mmgrab (Some b)) (map fst (new_calls w0 w3))) = 1"
    using differ by (simp add: ref_ops)
  have quiet: "filter is_ref_op (map fst (new_calls w1 w2)) = []"
    using calls2 by simp
  have "use_mm h (Some b) w2 = Inr w3
    \<and> filter is_ref_op (map fst (new_calls w2 w3)) = [Mmgrab (Some b), Mmdrop (Some a)]
    \<and> mm_count (mm_heap w3 a) = mm_count (mm_heap w2 a) - 1
    \<and> mm_count (mm_heap w3 b) = mm_count (mm_heap w2 b) + 1
    \<and> (\<forall>x. x \<noteq> a \<and> x \<noteq> b \<longrightarrow> mm_heap w3 x = mm_heap w2 x)
    \<and> filter is_ref_op (map fst (new_calls w1 w2)) = []
    \<and> mm_heap w2 = mm_heap w1
    \<and> filter is_ref_op (map fst (new_calls w0 w3)) =
        (if active_mm (current w0) = Some a then []
         else [Mmgrab (Some a), Mmdrop (active_mm (current w0))]) @
        [Mmgrab (Some b), Mmdrop (Some a)]
    \<and> length (filter (\<lambda>c. c = Mmdrop (Some a)) (map fst (new_calls w0 w3))) = 1
    \<and> length (filter (\<lambda>c. c = Mmgrab (Some b)) (map fst (new_calls w0 w3))) = 1
    \<and> mm_count (mm_heap w3 a) = mm_count (mm_heap w1 a) - 1
    \<and> mm_count (mm_heap w3 b) = mm_count (mm_heap w1 b) + 1"
    using third calls3 count_a count_b others quiet heap2 ref_ops drops_a grabs_b
    by (intro conjI) simp_all
  then show ?thesis ..
qed

theorem attach_other_space_moves_one_reference_witness:
  "use_mm True (Some 11) kthread0 = Inr attached_a
   \<and> unuse_mm (Some 11) attached_a = Inr lazy_a
   \<and> (12 :: nat) \<noteq> 11
   \<and> (\<exists>w3. use_mm True (Some 12) lazy_a = Inr w3
        \<and> filter is_ref_op (map fst (new_calls lazy_a w3)) = [Mmgrab (Some 12), Mmdrop (Some 11)]
        \<and> mm_count (mm_heap w3 11) = 2
        \<and> mm_count (mm_heap w3 12) = 3
        \<and> mm_heap w3 10 = mm_heap lazy_a 10
        \<and> filter is_ref_op (map fst (new_calls kthread0 w3)) =
            [Mmgrab (Some 11), Mmdrop (Some 10), Mmgrab (Some 12), Mmdrop (Some 11)]
        \<and> length (filter (\<lambda>c. c = Mmdrop (Some 11)) (map fst (new_calls kthread0 w3))) = 1
        \<and> length (filter (\<lambda>c. c = Mmgrab (Some 12)) (map fst (new_calls kthread0 w3))) = 1)"
proof -
  have differ: "(12 :: nat) \<noteq> 11" by simp
  from attach_other_space_moves_one_reference[OF attached_a_run lazy_a_run differ]
  obtain w3 where "use_mm True (Some 12) lazy_a = Inr w3"
    and "filter is_ref_op (map fst (new_calls lazy_a w3)) = [Mmgrab (Some 12), Mmdrop (Some 11)]"
    and "mm_count (mm_heap w3 11) = mm_count (mm_heap lazy_a 11) - 1"
    and "mm_count (mm_heap w3 12) = mm_count (mm_heap lazy_a 12) + 1"
    and "mm_heap w3 10 = mm_heap lazy_a 10"
    and "filter is_ref_op (map fst (new_calls kthread0 w3)) =
        (if active_mm (current kthread0) = Some 11 then []
         else [Mmgrab (Some 11), Mmdrop (active_mm (current kthread0))]) @
        [Mmgrab (Some 12), Mmdrop (Some 11)]"
    and "length (filter (\<lambda>c. c = Mmdrop (Some 11)) (map fst (new_calls kthread0 w3))) = 1"
    and "length (filter (\<lambda>c. c = Mmgrab (Some 12)) (map fst (new_calls kthread0 w3))) = 1"
    by auto
  then show ?thesis
    using attached_a_run lazy_a_run by (auto simp: lazy_a_sel kthread0_sel)
qed

section \<open>What use\_mm compares, and what it needs\<close>

text \<open>
  Claim C3, as the spec states it, says that the value \<open>prev\<close> compared with \<open>mm\<close> is
  the space the thread is actively attached to, the field \<open>mm\<close> of the task. The code
  reads \<open>tsk->active_mm\<close>, the retained space. The two differ in the lazy state, after
  \<open>use_mm(11)\<close> and \<open>unuse_mm(11)\<close>: the thread is attached to nothing, which is not
  the object at 11, and yet \<open>use_mm(11)\<close> neither calls \<open>mmgrab\<close> nor changes the count
  of that object, and it passes the object at 11, not \<open>NULL\<close>, as \<open>prev\<close> to the switch.
\<close>

theorem attach_prev_is_not_attached_space:
  "use_mm True (Some 11) kthread0 = Inr attached_a
   \<and> unuse_mm (Some 11) attached_a = Inr lazy_a
   \<and> mm (current lazy_a) = None
   \<and> active_mm (current lazy_a) = Some 11
   \<and> \<not> isl (use_mm True (Some 11) lazy_a)
   \<and> mm_count (mm_heap (projr (use_mm True (Some 11) lazy_a)) 11) = mm_count (mm_heap lazy_a 11)
   \<and> map fst (new_calls lazy_a (projr (use_mm True (Some 11) lazy_a))) =
       [TaskLock, MembarrierUpdateCurrentMm (Some 11), SwitchMm (Some 11) (Some 11), TaskUnlock,
        FinishArchPostLockSwitch, SmpMb]"
  by (simp add: attached_a_run lazy_a_run use_mm_same lazy_a_sel new_calls_def)

text \<open>
  Claim C3, amended. In \<open>use_mm\<close> the value \<open>prev\<close> that is compared with \<open>mm\<close>, and
  passed to the switch, is the thread's retained space \<open>active_mm\<close>. Both fields refer
  to \<open>mm\<close> on return. When \<open>prev\<close> is \<open>mm\<close>, no count changes and no \<open>mmgrab\<close> or
  \<open>mmdrop\<close> is called. When \<open>prev\<close> is not \<open>mm\<close>, the \<open>mmgrab\<close> of \<open>mm\<close> is the
  first call after taking the lock and sees both fields as they were on entry; every
  later call sees both fields referring to \<open>mm\<close> and its count one higher, and so it
  is on return.
\<close>

theorem attach_compares_retained_space:
  assumes attach: "use_mm h m w = Inr w'"
  shows "filter is_switch (map fst (new_calls w w')) = [SwitchMm (active_mm (current w)) m]
    \<and> mm (current w') = m \<and> active_mm (current w') = m
    \<and> (active_mm (current w) = m \<longrightarrow>
          mm_heap w' = mm_heap w \<and> filter is_ref_op (map fst (new_calls w w')) = [])
    \<and> (active_mm (current w) \<noteq> m \<longrightarrow>
          take 2 (new_calls w w') =
            [(TaskLock, \<lparr>current = current w, mm_heap = mm_heap w\<rparr>),
             (Mmgrab m, \<lparr>current = (current w)\<lparr>alloc_lock := True\<rparr>, mm_heap = mm_heap w\<rparr>)]
          \<and> list_all (\<lambda>e. mm (current (snd e)) = m \<and> active_mm (current (snd e)) = m)
               (drop 2 (new_calls w w'))
          \<and> (\<forall>a. m = Some a \<longrightarrow>
                list_all (\<lambda>e. mm_count (mm_heap (snd e) a) = mm_count (mm_heap w a) + 1)
                  (drop 2 (new_calls w w'))
                \<and> mm_count (mm_heap w' a) = mm_count (mm_heap w a) + 1))"
  using attach
proof (cases rule: use_mm_cases)
  case same
  with attach show ?thesis
    by (auto simp: use_mm_same new_calls_def)
next
  case (other p a)
  with attach show ?thesis
    by (auto simp: use_mm_other new_calls_def)
qed

theorem attach_compares_retained_space_witness:
  "use_mm True (Some 12) lazy_a = Inr moved_b
   \<and> mm (current lazy_a) = None
   \<and> filter is_switch (map fst (new_calls lazy_a moved_b)) = [SwitchMm (Some 11) (Some 12)]
   \<and> mm (current moved_b) = Some 12 \<and> active_mm (current moved_b) = Some 12
   \<and> take 2 (new_calls lazy_a moved_b) =
        [(TaskLock, \<lparr>current = current lazy_a, mm_heap = mm_heap lazy_a\<rparr>),
         (Mmgrab (Some 12),
          \<lparr>current = (current lazy_a)\<lparr>alloc_lock := True\<rparr>, mm_heap = mm_heap lazy_a\<rparr>)]
   \<and> list_all (\<lambda>e. mm (current (snd e)) = Some 12 \<and> active_mm (current (snd e)) = Some 12)
        (drop 2 (new_calls lazy_a moved_b))
   \<and> mm_count (mm_heap moved_b 12) = mm_count (mm_heap lazy_a 12) + 1"
  using attach_compares_retained_space[OF moved_b_run] moved_b_run
  by (simp add: lazy_a_sel)

text \<open>
  Claim C10. \<open>use_mm\<close> has the unstated precondition that the thread's \<open>active_mm\<close> is
  not \<open>NULL\<close>. With the lock free and an object \<open>a\<close> to attach to, the call faults if
  and only if \<open>active_mm\<close> is \<open>NULL\<close>, and the fault is the read through \<open>NULL\<close>.
  Whenever \<open>active_mm\<close> is not already \<open>a\<close>, the result of the call is the result of
  its last statement, the \<open>mmdrop\<close> of \<open>active_mm\<close>, which no test guards.
\<close>

theorem attach_needs_active_mm:
  assumes free: "\<not> alloc_lock (current w)"
  shows "(isl (use_mm h (Some a) w) = (active_mm (current w) = None))
    \<and> (active_mm (current w) = None \<longrightarrow> use_mm h (Some a) w = Inl NullPointer)
    \<and> (active_mm (current w) \<noteq> Some a \<longrightarrow>
          (\<exists>v. use_mm h (Some a) w = mmdrop (active_mm (current w)) v))"
proof -
  let ?prev = "active_mm (current w)"
  let ?v = "(if h then finish_arch_post_lock_switch else id)
      (task_unlock (switch_mm ?prev (Some a) (membarrier_update_current_mm (Some a)
        (store_mm (Some a) (store_active_mm (Some a)
          (store_mm_count a (mm_count (mm_heap w a) + 1)
            (observe (Mmgrab (Some a)) (store_alloc_lock True (observe TaskLock w)))))))))"
  have last_step: "use_mm h (Some a) w = mmdrop ?prev ?v" if "?prev \<noteq> Some a"
    using free that
    by (simp add: use_mm_def task_lock_def mmgrab_def and_then_def Let_def sel)
  have faults: "use_mm h (Some a) w = Inl NullPointer" if "?prev = None"
    using free that by (simp add: use_mm_null_prev)
  have returns: "\<not> isl (use_mm h (Some a) w)" if "?prev = Some p" for p
    using free that by (cases "p = a") (simp_all add: use_mm_same use_mm_other)
  show ?thesis
  proof (intro conjI impI)
    show "isl (use_mm h (Some a) w) = (?prev = None)"
      using faults returns by (cases ?prev) simp_all
  next
    assume "?prev = None"
    then show "use_mm h (Some a) w = Inl NullPointer" by (rule faults)
  next
    assume "?prev \<noteq> Some a"
    then have "use_mm h (Some a) w = mmdrop ?prev ?v" by (rule last_step)
    then show "\<exists>v. use_mm h (Some a) w = mmdrop ?prev v" ..
  qed
qed

theorem attach_needs_active_mm_witness:
  "\<not> alloc_lock (current orphan0)
   \<and> active_mm (current orphan0) = None
   \<and> isl (use_mm True (Some 11) orphan0)
   \<and> use_mm True (Some 11) orphan0 = Inl NullPointer
   \<and> (\<exists>v. use_mm True (Some 11) orphan0 = mmdrop None v)
   \<and> \<not> alloc_lock (current kthread0)
   \<and> active_mm (current kthread0) = Some 10
   \<and> \<not> isl (use_mm True (Some 11) kthread0)
   \<and> (\<exists>v. use_mm True (Some 11) kthread0 = mmdrop (Some 10) v)"
proof -
  have orphan: "\<not> alloc_lock (current orphan0)" "active_mm (current orphan0) = None"
    and kthread: "\<not> alloc_lock (current kthread0)" "active_mm (current kthread0) = Some 10"
    by (simp_all add: orphan0_sel kthread0_sel)
  note at_orphan = attach_needs_active_mm[OF orphan(1), of True 11]
  note at_kthread = attach_needs_active_mm[OF kthread(1), of True 11]
  have "isl (use_mm True (Some 11) orphan0)"
    and "use_mm True (Some 11) orphan0 = Inl NullPointer"
    and "\<exists>v. use_mm True (Some 11) orphan0 = mmdrop None v"
    using at_orphan orphan(2) by (metis option.distinct(1))+
  moreover have apart: "Some (10 :: nat) \<noteq> Some 11"
    by simp
  moreover have "\<not> isl (use_mm True (Some 11) kthread0)"
    and "\<exists>v. use_mm True (Some 11) kthread0 = mmdrop (Some 10) v"
    using at_kthread kthread(2) apart by (metis option.distinct(1))+
  ultimately show ?thesis
    using orphan kthread by (intro conjI)
qed

section \<open>Order of the calls\<close>

text \<open>
  Claim C4. Every \<open>use_mm\<close> and every \<open>unuse_mm\<close> that returns issues exactly one
  full memory barrier on the calling thread. In \<open>use_mm\<close> it is the \<open>mmdrop\<close> of the
  previous object when that object is not \<open>mm\<close>, and an explicit \<open>smp_mb\<close> when it
  is; either is issued after \<open>tsk->mm\<close> has been stored. In \<open>unuse_mm\<close> it is
  \<open>smp_mb__after_spinlock\<close>, issued while \<open>tsk->mm\<close> is still what it was on entry.
  Each barrier is listed with the value of \<open>tsk->mm\<close> it finds. (What a barrier
  orders between processors is outside this model; the statement is that it is issued,
  and where.)
\<close>

theorem every_transition_issues_one_barrier:
  assumes "step h x w = Inr w'"
  shows "map (\<lambda>e. (fst e, mm (current (snd e))))
           (filter (\<lambda>e. full_barrier (fst e)) (new_calls w w')) =
      [case x of
         Attach m \<Rightarrow>
           (if active_mm (current w) \<noteq> m then Mmdrop (active_mm (current w)) else SmpMb, m)
       | Detach m \<Rightarrow> (SmpMbAfterSpinlock, mm (current w))]"
proof (cases x)
  case (Attach m)
  with assms have attach: "use_mm h m w = Inr w'" by simp
  then show ?thesis
  proof (cases rule: use_mm_cases)
    case same
    with attach Attach show ?thesis by (auto simp: use_mm_same new_calls_def)
  next
    case (other p a)
    with attach Attach show ?thesis by (auto simp: use_mm_other new_calls_def)
  qed
next
  case (Detach m)
  with assms have detach: "unuse_mm m w = Inr w'" by simp
  from unuse_mm_free[OF unuse_mm_lock_free[OF this], of m] detach Detach show ?thesis
    by (auto simp: new_calls_def)
qed

theorem every_transition_issues_one_barrier_witness:
  "step True (Attach (Some 11)) kthread0 = Inr attached_a
   \<and> map (\<lambda>e. (fst e, mm (current (snd e))))
        (filter (\<lambda>e. full_barrier (fst e)) (new_calls kthread0 attached_a)) =
       [(Mmdrop (Some 10), Some 11)]
   \<and> step True (Detach (Some 11)) attached_a = Inr lazy_a
   \<and> map (\<lambda>e. (fst e, mm (current (snd e))))
        (filter (\<lambda>e. full_barrier (fst e)) (new_calls attached_a lazy_a)) =
       [(SmpMbAfterSpinlock, Some 11)]"
proof -
  have attach: "step True (Attach (Some 11)) kthread0 = Inr attached_a"
    and detach: "step True (Detach (Some 11)) attached_a = Inr lazy_a"
    by (simp_all add: attached_a_run lazy_a_run)
  show ?thesis
    using every_transition_issues_one_barrier[OF attach]
      every_transition_issues_one_barrier[OF detach] attach detach
    by (simp add: kthread0_sel attached_a_sel)
qed

text \<open>
  Claim C5. Every \<open>unuse_mm\<close> that returns makes these six calls in this order. The
  full barrier comes right after the lock is taken and before the statistics flush; the
  flush still finds \<open>tsk->mm\<close> as it was on entry, which is \<open>mm\<close> for a caller that keeps
  the contract; the membarrier notification finds it cleared. Each call is listed with
  the value of \<open>tsk->mm\<close> and the state of the lock it finds.
\<close>

theorem detach_barrier_flush_clear_order:
  assumes detach: "unuse_mm m w = Inr w'"
  shows "map (\<lambda>e. (fst e, mm (current (snd e)), alloc_lock (current (snd e)))) (new_calls w w') =
      [(TaskLock, mm (current w), False),
       (SmpMbAfterSpinlock, mm (current w), True),
       (SyncMmRss m, mm (current w), True),
       (MembarrierUpdateCurrentMm None, None, True),
       (EnterLazyTlb m, None, True),
       (TaskUnlock, None, True)]"
proof -
  have free: "\<not> alloc_lock (current w)"
    using detach by (rule unuse_mm_lock_free)
  from unuse_mm_free[OF this, of m] detach free show ?thesis
    by (auto simp: new_calls_def)
qed

theorem detach_barrier_flush_clear_order_witness:
  "unuse_mm (Some 11) attached_a = Inr lazy_a
   \<and> mm (current attached_a) = Some 11
   \<and> map (\<lambda>e. (fst e, mm (current (snd e)), alloc_lock (current (snd e))))
        (new_calls attached_a lazy_a) =
       [(TaskLock, Some 11, False),
        (SmpMbAfterSpinlock, Some 11, True),
        (SyncMmRss (Some 11), Some 11, True),
        (MembarrierUpdateCurrentMm None, None, True),
        (EnterLazyTlb (Some 11), None, True),
        (TaskUnlock, None, True)]"
  using detach_barrier_flush_clear_order[OF lazy_a_run] lazy_a_run
  by (simp add: attached_a_sel)

text \<open>
  Claim C9. Every \<open>use_mm\<close> that returns takes the lock, makes the membarrier
  notification and the translation switch with the lock held, releases it, and only
  then, where the platform has one, runs the hook. Every \<open>unuse_mm\<close> that returns
  makes the statistics flush and the membarrier notification with the lock held. Each
  of these calls is listed with the state of the lock it finds.
\<close>

theorem lock_scope_of_attach_and_detach:
  assumes "step h x w = Inr w'"
  shows "map (\<lambda>e. (fst e, alloc_lock (current (snd e))))
           (filter (\<lambda>e. lock_scoped (fst e)) (new_calls w w')) =
      (case x of
         Attach m \<Rightarrow>
           [(TaskLock, False), (MembarrierUpdateCurrentMm m, True),
            (SwitchMm (active_mm (current w)) m, True), (TaskUnlock, True)] @
           (if h then [(FinishArchPostLockSwitch, False)] else [])
       | Detach m \<Rightarrow>
           [(TaskLock, False), (SyncMmRss m, True), (MembarrierUpdateCurrentMm None, True),
            (TaskUnlock, True)])"
proof (cases x)
  case (Attach m)
  with assms have attach: "use_mm h m w = Inr w'" by simp
  then show ?thesis
  proof (cases rule: use_mm_cases)
    case same
    with attach Attach show ?thesis by (auto simp: use_mm_same new_calls_def)
  next
    case (other p a)
    with attach Attach show ?thesis by (auto simp: use_mm_other new_calls_def)
  qed
next
  case (Detach m)
  with assms have detach: "unuse_mm m w = Inr w'" by simp
  have free: "\<not> alloc_lock (current w)"
    using detach by (rule unuse_mm_lock_free)
  from unuse_mm_free[OF this, of m] detach Detach free show ?thesis
    by (auto simp: new_calls_def)
qed

theorem lock_scope_of_attach_and_detach_witness:
  "step True (Attach (Some 11)) kthread0 = Inr attached_a
   \<and> map (\<lambda>e. (fst e, alloc_lock (current (snd e))))
        (filter (\<lambda>e. lock_scoped (fst e)) (new_calls kthread0 attached_a)) =
       [(TaskLock, False), (MembarrierUpdateCurrentMm (Some 11), True),
        (SwitchMm (Some 10) (Some 11), True), (TaskUnlock, True),
        (FinishArchPostLockSwitch, False)]
   \<and> step True (Detach (Some 11)) attached_a = Inr lazy_a
   \<and> map (\<lambda>e. (fst e, alloc_lock (current (snd e))))
        (filter (\<lambda>e. lock_scoped (fst e)) (new_calls attached_a lazy_a)) =
       [(TaskLock, False), (SyncMmRss (Some 11), True), (MembarrierUpdateCurrentMm None, True),
        (TaskUnlock, True)]"
proof -
  have attach: "step True (Attach (Some 11)) kthread0 = Inr attached_a"
    and detach: "step True (Detach (Some 11)) attached_a = Inr lazy_a"
    by (simp_all add: attached_a_run lazy_a_run)
  show ?thesis
    using lock_scope_of_attach_and_detach[OF attach]
      lock_scope_of_attach_and_detach[OF detach] attach detach
    by (simp add: kthread0_sel attached_a_sel)
qed

section \<open>What unuse\_mm leaves behind\<close>

text \<open>
  Claim C6. After an \<open>unuse_mm\<close> that returns, \<open>tsk->mm\<close> is \<open>NULL\<close>,
  \<open>tsk->active_mm\<close> is what it was, no reference count has changed and neither
  \<open>mmgrab\<close> nor \<open>mmdrop\<close> was called. When the call follows a \<open>use_mm\<close> of an
  object, that object is what the thread was attached to and what \<open>active_mm\<close> still
  refers to. A later \<open>use_mm\<close> drops the retained reference if and only if it is a
  \<open>use_mm\<close> of another object.
\<close>

theorem detach_keeps_retained_reference:
  assumes detach: "unuse_mm m w = Inr w'"
  shows "mm (current w') = None
    \<and> active_mm (current w') = active_mm (current w)
    \<and> mm_heap w' = mm_heap w
    \<and> filter is_ref_op (map fst (new_calls w w')) = []
    \<and> (\<forall>h a w0. use_mm h a w0 = Inr w \<longrightarrow> mm (current w) = a \<and> active_mm (current w') = a)
    \<and> (\<forall>h b w''. use_mm h b w' = Inr w'' \<longrightarrow>
          (Mmdrop (active_mm (current w)) \<in> fst ` set (new_calls w' w'')) =
          (b \<noteq> active_mm (current w)))"
proof -
  have free: "\<not> alloc_lock (current w)"
    using detach by (rule unuse_mm_lock_free)
  from unuse_mm_free[OF this, of m] detach
  have frame: "current w' = (current w)\<lparr>mm := None\<rparr>" "mm_heap w' = mm_heap w"
    and calls: "map fst (new_calls w w') =
      [TaskLock, SmpMbAfterSpinlock, SyncMmRss m, MembarrierUpdateCurrentMm None,
       EnterLazyTlb m, TaskUnlock]"
    by (auto simp: new_calls_def)
  have after_attach: "mm (current w) = a \<and> active_mm (current w') = a"
    if "use_mm h a w0 = Inr w" for h a w0
    using use_mm_current[OF that] frame by simp
  have later:
    "(Mmdrop (active_mm (current w)) \<in> fst ` set (new_calls w' w'')) = (b \<noteq> active_mm (current w))"
    if next_attach: "use_mm h b w' = Inr w''" for h b w''
    using next_attach
  proof (cases rule: use_mm_cases)
    case same
    with next_attach frame show ?thesis
      by (auto simp: use_mm_same new_calls_def)
  next
    case (other p c)
    with next_attach frame show ?thesis
      by (auto simp: use_mm_other new_calls_def)
  qed
  show ?thesis
    using frame calls after_attach later by simp
qed

theorem detach_keeps_retained_reference_witness:
  "unuse_mm (Some 11) attached_a = Inr lazy_a
   \<and> mm (current lazy_a) = None
   \<and> active_mm (current lazy_a) = Some 11
   \<and> mm_heap lazy_a = mm_heap attached_a
   \<and> filter is_ref_op (map fst (new_calls attached_a lazy_a)) = []
   \<and> use_mm True (Some 11) kthread0 = Inr attached_a
   \<and> mm (current attached_a) = Some 11
   \<and> use_mm True (Some 12) lazy_a = Inr moved_b
   \<and> Mmdrop (Some 11) \<in> fst ` set (new_calls lazy_a moved_b)"
proof -
  note kept = detach_keeps_retained_reference[OF lazy_a_run]
  have "Some (12 :: nat) \<noteq> active_mm (current attached_a)"
    by (simp add: attached_a_sel)
  with kept moved_b_run
  have "Mmdrop (active_mm (current attached_a)) \<in> fst ` set (new_calls lazy_a moved_b)"
    by blast
  then have "Mmdrop (Some 11) \<in> fst ` set (new_calls lazy_a moved_b)"
    by (simp add: attached_a_sel)
  moreover from kept have "filter is_ref_op (map fst (new_calls attached_a lazy_a)) = []"
    and "mm_heap lazy_a = mm_heap attached_a"
    by simp_all
  ultimately show ?thesis
    using lazy_a_run attached_a_run moved_b_run by (simp add: lazy_a_sel attached_a_sel)
qed

end
